theory Spec2Isabelle
  imports Main
begin

section \<open>The SemCor corpus reader: data model\<close>

text \<open>
  An \<open>xml.etree.ElementTree\<close> element as the reader uses it: its tag, its attribute
  dictionary (\<open>attrib\<close>, read with \<open>get\<close>, \<open>keys\<close> and subscription), its text
  (\<open>None\<close> when absent) and its children in document order.
\<close>

datatype element =
  Element (tag: string) (attrib: "(string \<times> string) list") (elt_text: "string option")
    (children: "element list")

text \<open>
  The Python values the reader produces: \<open>None\<close>, booleans, strings, tuples, lists,
  \<open>nltk.tree.Tree\<close> nodes (a label and a list of children) and \<open>SemcorSentence\<close>
  (a list carrying the sentence identifier \<open>num\<close>).
\<close>

datatype pyval =
  NoneV
  | BoolV bool
  | Str string
  | Tuple "pyval list"
  | List "pyval list"
  | Tree pyval "pyval list"
  | SemcorSentence string "pyval list"

text \<open>The exceptions the reader can raise; each carries its message or variable name.\<close>

datatype error =
  AssertionError
  | KeyError string
  | ValueError string
  | UnboundLocalError string
  | TypeError

text \<open>The parameter \<open>unit\<close>: one of \<open>'token'\<close>, \<open>'word'\<close>, \<open>'chunk'\<close>.\<close>

datatype unit_kind = UToken | UWord | UChunk

section \<open>Python string primitives\<close>

text \<open>
  A character is a code point below U+0100. The parser hands out a byte string
  (\<open>str\<close>) for a text or attribute value of ASCII characters only and a \<open>unicode\<close>
  string for any other, and the two types differ in what they take for whitespace:
  \<open>str\<close> the six ASCII characters tab, line feed, vertical tab, form feed, carriage
  return and blank; \<open>unicode\<close> also the separators U+001C to U+001F, the next-line
  character U+0085 and the no-break space U+00A0.
\<close>

definition is_ascii :: "string \<Rightarrow> bool" where
  "is_ascii s = list_all (\<lambda>c. (of_char c :: nat) < 128) s"

definition is_space :: "bool \<Rightarrow> char \<Rightarrow> bool" where
  "is_space ascii c =
     (c \<in> set [CHR 0x09, CHR 0x0A, CHR 0x0B, CHR 0x0C, CHR 0x0D, CHR '' '']
      \<or> (\<not> ascii \<and> c \<in> set [CHR 0x1C, CHR 0x1D, CHR 0x1E, CHR 0x1F, CHR 0x85, CHR 0xA0]))"

text \<open>\<open>s.strip()\<close>: removes the whitespace of the string's type at both ends.\<close>

definition py_strip :: "string \<Rightarrow> string" where
  "py_strip s =
     rev (dropWhile (is_space (is_ascii s)) (rev (dropWhile (is_space (is_ascii s)) s)))"

text \<open>
  \<open>str.split(sep)\<close> with a one-character separator: the pieces between the separators,
  empty pieces kept; the empty string gives one empty piece.
\<close>

fun py_split :: "char \<Rightarrow> string \<Rightarrow> string list" where
  "py_split sep [] = [[]]"
| "py_split sep (c # cs) =
     (if c = sep then [] # py_split sep cs
      else (case py_split sep cs of
              [] \<Rightarrow> [[c]]
            | w # ws \<Rightarrow> (c # w) # ws))"

text \<open>
  \<open>int(s)\<close> on a string: surrounding whitespace (that of the string's type) is dropped,
  then an optional sign and at least one decimal digit must remain; anything else is a
  \<open>ValueError\<close> (\<open>None\<close> here). Below U+0100 the decimal digits are \<open>0\<close> to \<open>9\<close>.
\<close>

definition is_digit :: "char \<Rightarrow> bool" where
  "is_digit c = (c \<in> set ''0123456789'')"

definition digit_val :: "char \<Rightarrow> nat" where
  "digit_val c = of_char c - 48"

definition digits_val :: "string \<Rightarrow> nat" where
  "digits_val ds = foldl (\<lambda>a c. 10 * a + digit_val c) 0 ds"

definition py_int :: "string \<Rightarrow> int option" where
  "py_int s =
     (let t = py_strip s;
          neg = (t \<noteq> [] \<and> hd t = CHR ''-'');
          ds = (if t \<noteq> [] \<and> (hd t = CHR ''-'' \<or> hd t = CHR ''+'') then tl t else t)
      in if ds \<noteq> [] \<and> list_all is_digit ds
         then Some (if neg then - int (digits_val ds) else int (digits_val ds))
         else None)"

text \<open>\<open>'%02d' % n\<close>: decimal, zero-padded on the left to width two, the sign counted.\<close>

definition digit_char :: "nat \<Rightarrow> char" where
  "digit_char d = ''0123456789'' ! d"

fun dec :: "nat \<Rightarrow> string" where
  "dec n = (if n < 10 then [digit_char n] else dec (n div 10) @ [digit_char (n mod 10)])"

declare dec.simps [simp del]

definition fmt_02d :: "int \<Rightarrow> string" where
  "fmt_02d n =
     (if n < 0 then CHR ''-'' # dec (nat (- n))
      else replicate (2 - length (dec (nat n))) CHR ''0'' @ dec (nat n))"

section \<open>The item builder \<open>SemcorCorpusReader._word\<close>\<close>

text \<open>\<open>xmlword.get(key)\<close> and \<open>key in xmlword.keys()\<close>.\<close>

definition elt_get :: "element \<Rightarrow> string \<Rightarrow> string option" where
  "elt_get e k = map_of (attrib e) k"

definition has_key :: "element \<Rightarrow> string \<Rightarrow> bool" where
  "has_key e k = (k \<in> set (map fst (attrib e)))"

text \<open>
  Lines 160-163: \<open>tkn = xmlword.text\<close>, replaced by \<open>""\<close> when it is \<open>None\<close> or empty,
  stripped when \<open>strip_space\<close>.
\<close>

definition tkn_of :: "element \<Rightarrow> bool \<Rightarrow> string" where
  "tkn_of xmlword strip_space =
     (let tkn = (case elt_text xmlword of None \<Rightarrow> [] | Some t \<Rightarrow> if t = [] then [] else t)
      in if strip_space then py_strip tkn else tkn)"

text \<open>\<open>lemma = xmlword.get('lemma', tkn)\<close>.\<close>

definition lemma_of :: "element \<Rightarrow> string \<Rightarrow> string" where
  "lemma_of xmlword tkn = (case elt_get xmlword ''lemma'' of None \<Rightarrow> tkn | Some l \<Rightarrow> l)"

text \<open>An optional Python string as a value: \<open>None\<close> or the string.\<close>

definition opt_str :: "string option \<Rightarrow> pyval" where
  "opt_str x = (case x of None \<Rightarrow> NoneV | Some s \<Rightarrow> Str s)"

text \<open>
  Lines 181-185: the local variable \<open>sense\<close>. It is assigned only under
  \<open>if sensenum is not None\<close>, so it is unbound (\<open>None\<close> here) otherwise; the
  \<open>try\<close>/\<open>except ValueError\<close> chooses between the formatted and the verbatim key.
\<close>

definition sense_of :: "string \<Rightarrow> string option \<Rightarrow> string option" where
  "sense_of lemma sensenum =
     (case sensenum of
        None \<Rightarrow> None
      | Some sn \<Rightarrow>
          (case py_int sn of
             Some n \<Rightarrow> Some (lemma @ ''.'' @ fmt_02d n)
           | None \<Rightarrow> Some (lemma @ ''.'' @ sn)))"

text \<open>
  \<open>_word(xmlword, unit, pos_tag, sem_tag, strip_space)\<close>, lines 159-196. Reading the
  unbound \<open>sense\<close> in \<open>Tree(sense, ...)\<close> raises \<open>UnboundLocalError\<close>.
\<close>

definition SemcorCorpusReader_word ::
  "element \<Rightarrow> unit_kind \<Rightarrow> bool \<Rightarrow> bool \<Rightarrow> bool \<Rightarrow> error + pyval" where
  "SemcorCorpusReader_word xmlword unit pos_tag sem_tag strip_space =
     (let tkn = tkn_of xmlword strip_space;
          lemma = lemma_of xmlword tkn;
          sensenum = elt_get xmlword ''wnsn'';
          isOOVEntity = has_key xmlword ''rdf'';
          pos = elt_get xmlword ''pos''
      in if unit = UToken then
           (if \<not> pos_tag \<and> \<not> sem_tag then Inr (Str tkn)
            else Inr (Tuple ([Str tkn]
                        @ (if pos_tag then [opt_str pos] else [])
                        @ (if sem_tag then [Str lemma, opt_str sensenum, BoolV isOOVEntity]
                           else []))))
         else
           (let ww = map Str (py_split CHR ''_'' tkn)
            in if unit = UWord then Inr (List ww)
               else
                 (let sense = sense_of lemma sensenum;
                      bottom = (if pos_tag then [Tree (opt_str pos) ww] else ww)
                  in if sem_tag \<and> isOOVEntity then
                       (case sense of
                          None \<Rightarrow> Inl (UnboundLocalError ''sense'')
                        | Some k \<Rightarrow> Inr (Tree (Str k) [Tree (Str ''NE'') bottom]))
                     else if sem_tag \<and> sensenum \<noteq> None then
                       (case sense of
                          None \<Rightarrow> Inl (UnboundLocalError ''sense'')
                        | Some k \<Rightarrow> Inr (Tree (Str k) bottom))
                     else if pos_tag then Inr (hd bottom)
                     else Inr (List bottom))))"

section \<open>The leaf collector \<open>_all_xmlwords_in\<close>\<close>

text \<open>
  Lines 198-203. The list \<open>result\<close> is mutated in place by the recursive call, so the
  model threads it: the loop over the children continues with what the call left.
\<close>

fun all_xmlwords_in :: "element \<Rightarrow> element list \<Rightarrow> element list"
  and all_xmlwords_loop :: "element list \<Rightarrow> element list \<Rightarrow> element list" where
  "all_xmlwords_in (Element t a x cs) result = all_xmlwords_loop cs result"
| "all_xmlwords_loop [] result = result"
| "all_xmlwords_loop (child # rest) result =
     all_xmlwords_loop rest
       (if tag child \<in> set [''wf'', ''punc''] then result @ [child]
        else all_xmlwords_in child result)"

text \<open>The call with the default argument \<open>result=None\<close>, which starts from \<open>[]\<close>.\<close>

definition xmlwords_in :: "element \<Rightarrow> element list" where
  "xmlwords_in elt = all_xmlwords_in elt []"

section \<open>The eager materializer \<open>SemcorCorpusReader._words\<close>\<close>

text \<open>
  \<open>xmldoc.findall('.//s')\<close>: the elements with that tag at every level below the
  element, in document order.
\<close>

fun descendants :: "element \<Rightarrow> element list"
  and descendants_list :: "element list \<Rightarrow> element list" where
  "descendants (Element t a x cs) = descendants_list cs"
| "descendants_list [] = []"
| "descendants_list (c # cs) = c # descendants c @ descendants_list cs"

definition findall :: "element \<Rightarrow> string \<Rightarrow> element list" where
  "findall xmldoc tg = filter (\<lambda>e. tag e = tg) (descendants xmldoc)"

text \<open>
  Iterating a Python value, as \<open>list.extend\<close> and a \<open>for\<close> loop do: a string gives its
  characters, a tuple or a list (\<open>Tree\<close> and \<open>SemcorSentence\<close> are lists) its elements, and
  \<open>None\<close> or a boolean is not iterable.
\<close>

fun py_iter :: "pyval \<Rightarrow> error + pyval list" where
  "py_iter NoneV = Inl TypeError"
| "py_iter (BoolV b) = Inl TypeError"
| "py_iter (Str s) = Inr (map (\<lambda>c. Str [c]) s)"
| "py_iter (Tuple xs) = Inr xs"
| "py_iter (List xs) = Inr xs"
| "py_iter (Tree l xs) = Inr xs"
| "py_iter (SemcorSentence n xs) = Inr xs"

text \<open>The inner loop of \<open>_words\<close>, lines 143-148, over the collected leaves.\<close>

fun words_sent_loop ::
  "unit_kind \<Rightarrow> bool \<Rightarrow> bool \<Rightarrow> bool \<Rightarrow> element list \<Rightarrow> pyval list \<Rightarrow> error + pyval list" where
  "words_sent_loop unit pos_tag sem_tag strip_space [] sent = Inr sent"
| "words_sent_loop unit pos_tag sem_tag strip_space (xmlword # rest) sent =
     (case SemcorCorpusReader_word xmlword unit pos_tag sem_tag strip_space of
        Inl err \<Rightarrow> Inl err
      | Inr itm \<Rightarrow>
          if unit = UWord then
            (case py_iter itm of
               Inl err \<Rightarrow> Inl err
             | Inr xs \<Rightarrow> words_sent_loop unit pos_tag sem_tag strip_space rest (sent @ xs))
          else words_sent_loop unit pos_tag sem_tag strip_space rest (sent @ [itm]))"

text \<open>
  The outer loop, lines 141-153, over the sentence elements;
  \<open>xmlsent.attrib['snum']\<close> raises \<open>KeyError\<close> when the attribute is missing.
\<close>

fun words_doc_loop ::
  "unit_kind \<Rightarrow> bool \<Rightarrow> bool \<Rightarrow> bool \<Rightarrow> bool \<Rightarrow> element list \<Rightarrow> pyval list
     \<Rightarrow> error + pyval list" where
  "words_doc_loop unit bracket_sent pos_tag sem_tag strip_space [] result = Inr result"
| "words_doc_loop unit bracket_sent pos_tag sem_tag strip_space (xmlsent # rest) result =
     (case words_sent_loop unit pos_tag sem_tag strip_space (xmlwords_in xmlsent) [] of
        Inl err \<Rightarrow> Inl err
      | Inr sent \<Rightarrow>
          if bracket_sent then
            (case map_of (attrib xmlsent) ''snum'' of
               None \<Rightarrow> Inl (KeyError ''snum'')
             | Some num \<Rightarrow>
                 words_doc_loop unit bracket_sent pos_tag sem_tag strip_space rest
                   (result @ [SemcorSentence num sent]))
          else words_doc_loop unit bracket_sent pos_tag sem_tag strip_space rest
                 (result @ sent))"

text \<open>
  \<open>_words\<close>, lines 122-156, on the root element that \<open>ElementTree.parse(fileid).getroot()\<close>
  gives, with both assertions.
\<close>

definition SemcorCorpusReader_words ::
  "element \<Rightarrow> unit_kind \<Rightarrow> bool \<Rightarrow> bool \<Rightarrow> bool \<Rightarrow> bool \<Rightarrow> error + pyval list" where
  "SemcorCorpusReader_words xmldoc unit bracket_sent pos_tag sem_tag strip_space =
     (if unit \<notin> set [UToken, UWord, UChunk] then Inl AssertionError
      else
        (case words_doc_loop unit bracket_sent pos_tag sem_tag strip_space
                (findall xmldoc ''s'') [] of
           Inl err \<Rightarrow> Inl err
         | Inr result \<Rightarrow> if NoneV \<in> set result then Inl AssertionError else Inr result))"

section \<open>The lazy streaming view \<open>SemcorWordView\<close>\<close>

text \<open>
  Modelled from the spec: the base class \<open>XMLCorpusView\<close> (the structural stream) is not
  among the sources. The spec has it yield, one per pull and in document order, the
  elements matched by a path pattern. The two patterns are the ones \<open>__init__\<close> passes,
  \<open>'.*/s'\<close> and \<open>'.*/s/(punc|wf)'\<close>, read on the path of tags from the root down to the
  element: a sentence element below the root, and a leaf that is a direct child of such
  a sentence element.
\<close>

fun walk :: "string list \<Rightarrow> element \<Rightarrow> (string list \<times> element) list"
  and walk_list :: "string list \<Rightarrow> element list \<Rightarrow> (string list \<times> element) list" where
  "walk ctx (Element t a x cs) = (ctx @ [t], Element t a x cs) # walk_list (ctx @ [t]) cs"
| "walk_list ctx [] = []"
| "walk_list ctx (c # cs) = walk ctx c @ walk_list ctx cs"

definition tagspec_sent :: "string list \<Rightarrow> bool" where
  "tagspec_sent path = (2 \<le> length path \<and> last path = ''s'')"

definition tagspec_word :: "string list \<Rightarrow> bool" where
  "tagspec_word path =
     (3 \<le> length path \<and> last (butlast path) = ''s'' \<and> last path \<in> set [''punc'', ''wf''])"

definition XMLCorpusView_elts :: "element \<Rightarrow> (string list \<Rightarrow> bool) \<Rightarrow> element list" where
  "XMLCorpusView_elts xmldoc tagspec = map snd (filter (\<lambda>pe. tagspec (fst pe)) (walk [] xmldoc))"

text \<open>The fields \<open>__init__\<close> sets, lines 226-235.\<close>

record word_view =
  v_fileid :: element
  v_tagspec :: "string list \<Rightarrow> bool"
  v_unit :: unit_kind
  v_sent :: bool
  v_pos_tag :: bool
  v_sem_tag :: bool
  v_strip_space :: bool

definition SemcorWordView ::
  "element \<Rightarrow> unit_kind \<Rightarrow> bool \<Rightarrow> bool \<Rightarrow> bool \<Rightarrow> bool \<Rightarrow> word_view" where
  "SemcorWordView fileid unit bracket_sent pos_tag sem_tag strip_space =
     \<lparr> v_fileid = fileid,
       v_tagspec = (if bracket_sent then tagspec_sent else tagspec_word),
       v_unit = unit, v_sent = bracket_sent, v_pos_tag = pos_tag, v_sem_tag = sem_tag,
       v_strip_space = strip_space \<rparr>"

definition handle_word :: "word_view \<Rightarrow> element \<Rightarrow> error + pyval" where
  "handle_word self elt =
     SemcorCorpusReader_word elt (v_unit self) (v_pos_tag self) (v_sem_tag self)
       (v_strip_space self)"

text \<open>The loop of \<open>handle_sent\<close>, lines 246-254.\<close>

fun handle_sent_loop :: "word_view \<Rightarrow> element list \<Rightarrow> pyval list \<Rightarrow> error + pyval list" where
  "handle_sent_loop self [] sent = Inr sent"
| "handle_sent_loop self (child # rest) sent =
     (if tag child \<in> set [''wf'', ''punc''] then
        (case handle_word self child of
           Inl err \<Rightarrow> Inl err
         | Inr itm \<Rightarrow>
             if v_unit self = UWord then
               (case py_iter itm of
                  Inl err \<Rightarrow> Inl err
                | Inr xs \<Rightarrow> handle_sent_loop self rest (sent @ xs))
             else handle_sent_loop self rest (sent @ [itm]))
      else Inl (ValueError (''Unexpected element '' @ tag child)))"

definition handle_sent :: "word_view \<Rightarrow> element \<Rightarrow> error + pyval" where
  "handle_sent self elt =
     (case handle_sent_loop self (children elt) [] of
        Inl err \<Rightarrow> Inl err
      | Inr sent \<Rightarrow>
          (case map_of (attrib elt) ''snum'' of
             None \<Rightarrow> Inl (KeyError ''snum'')
           | Some num \<Rightarrow> Inr (SemcorSentence num sent)))"

definition handle_elt :: "word_view \<Rightarrow> element \<Rightarrow> error + pyval" where
  "handle_elt self elt = (if v_sent self then handle_sent self elt else handle_word self elt)"

text \<open>
  Pulling the view to its end: the handler applied to each matched element in turn; the
  first exception ends the iteration.
\<close>

fun pull_all :: "(element \<Rightarrow> error + pyval) \<Rightarrow> element list \<Rightarrow> error + pyval list" where
  "pull_all h [] = Inr []"
| "pull_all h (e # es) =
     (case h e of
        Inl err \<Rightarrow> Inl err
      | Inr v \<Rightarrow> (case pull_all h es of Inl err \<Rightarrow> Inl err | Inr vs \<Rightarrow> Inr (v # vs)))"

definition view_items :: "word_view \<Rightarrow> error + pyval list" where
  "view_items self = pull_all (handle_elt self) (XMLCorpusView_elts (v_fileid self) (v_tagspec self))"

section \<open>The view selector \<open>SemcorCorpusReader._items\<close>\<close>

text \<open>
  Modelled from the spec: \<open>LazyConcatenation\<close> (the flattening adapter) and \<open>concat\<close> are
  not among the sources. The adapter pulls from the producer and, for each element it
  yields, the elements of that element in turn; \<open>concat\<close> joins the per-document
  sequences in document order.
\<close>

fun flatten_loop :: "pyval list \<Rightarrow> error + pyval list" where
  "flatten_loop [] = Inr []"
| "flatten_loop (sub # rest) =
     (case py_iter sub of
        Inl err \<Rightarrow> Inl err
      | Inr xs \<Rightarrow> (case flatten_loop rest of Inl err \<Rightarrow> Inl err | Inr ys \<Rightarrow> Inr (xs @ ys)))"

definition LazyConcatenation :: "error + pyval list \<Rightarrow> error + pyval list" where
  "LazyConcatenation producer = (case producer of Inl err \<Rightarrow> Inl err | Inr subs \<Rightarrow> flatten_loop subs)"

fun concat_docs :: "(error + pyval list) list \<Rightarrow> error + pyval list" where
  "concat_docs [] = Inr []"
| "concat_docs (d # ds) =
     (case d of
        Inl err \<Rightarrow> Inl err
      | Inr xs \<Rightarrow> (case concat_docs ds of Inl err \<Rightarrow> Inl err | Inr ys \<Rightarrow> Inr (xs @ ys)))"

text \<open>
  \<open>_items\<close>, lines 112-120; \<open>lazy\<close> is the reader's field \<open>_lazy\<close> and \<open>docs\<close> the parsed
  documents of \<open>self.abspaths(fileids)\<close>.
\<close>

definition producer ::
  "bool \<Rightarrow> element \<Rightarrow> unit_kind \<Rightarrow> bool \<Rightarrow> bool \<Rightarrow> bool \<Rightarrow> bool \<Rightarrow> error + pyval list" where
  "producer lazy fileid unit bracket_sent pos_tag sem_tag strip_space =
     (if lazy then view_items (SemcorWordView fileid unit bracket_sent pos_tag sem_tag strip_space)
      else SemcorCorpusReader_words fileid unit bracket_sent pos_tag sem_tag strip_space)"

definition SemcorCorpusReader_items ::
  "bool \<Rightarrow> element list \<Rightarrow> unit_kind \<Rightarrow> bool \<Rightarrow> bool \<Rightarrow> bool \<Rightarrow> bool \<Rightarrow> error + pyval list" where
  "SemcorCorpusReader_items lazy docs unit bracket_sent pos_tag sem_tag strip_space =
     concat_docs
       (map (\<lambda>fileid.
               if unit = UWord \<and> \<not> bracket_sent then
                 LazyConcatenation
                   (producer lazy fileid unit bracket_sent pos_tag sem_tag strip_space)
               else producer lazy fileid unit bracket_sent pos_tag sem_tag strip_space)
          docs)"

text \<open>The public operation \<open>words\<close>, line 42.\<close>

definition words :: "bool \<Rightarrow> element list \<Rightarrow> bool \<Rightarrow> error + pyval list" where
  "words lazy docs strip_space = SemcorCorpusReader_items lazy docs UWord False False False strip_space"

section \<open>Notions of the specification\<close>

text \<open>A leaf element: tag \<open>wf\<close> (word) or \<open>punc\<close> (punctuation).\<close>

definition is_leaf :: "element \<Rightarrow> bool" where
  "is_leaf e = (tag e = ''wf'' \<or> tag e = ''punc'')"

text \<open>
  The specification's leaf sequence: a pre-order traversal in which a leaf child is
  taken as it is, without descending into it, and any other child is traversed.
\<close>

fun leaf_sequence :: "element \<Rightarrow> element list" where
  "leaf_sequence (Element t a x cs) =
     concat (map (\<lambda>c. if is_leaf c then [c] else leaf_sequence c) cs)"

text \<open>
  A flat sentence has only leaves as children, and they have no children of their own;
  a flat document has only flat sentences.
\<close>

definition flat_sentence :: "element \<Rightarrow> bool" where
  "flat_sentence s = list_all (\<lambda>c. is_leaf c \<and> children c = []) (children s)"

definition flat_doc :: "element \<Rightarrow> bool" where
  "flat_doc xmldoc = list_all flat_sentence (findall xmldoc ''s'')"

text \<open>
  Whitespace as the specification's trimming and integer parsing see it, written out:
  that of a byte string for a text of ASCII characters, that of a unicode string for
  any other.
\<close>

abbreviation ascii_whitespace :: "char set" where
  "ascii_whitespace \<equiv> {CHR 0x09, CHR 0x0A, CHR 0x0B, CHR 0x0C, CHR 0x0D, CHR '' ''}"

abbreviation unicode_whitespace :: "char set" where
  "unicode_whitespace \<equiv>
     {CHR 0x09, CHR 0x0A, CHR 0x0B, CHR 0x0C, CHR 0x0D, CHR '' '',
      CHR 0x1C, CHR 0x1D, CHR 0x1E, CHR 0x1F, CHR 0x85, CHR 0xA0}"

abbreviation whitespace_of :: "string \<Rightarrow> char set" where
  "whitespace_of t \<equiv>
     (if (\<forall>c \<in> set t. (of_char c :: nat) < 128) then ascii_whitespace else unicode_whitespace)"

text \<open>
  \<open>r\<close> is the text \<open>t\<close> trimmed: \<open>t\<close> without a leading and a trailing run of
  whitespace, and \<open>r\<close> neither starts nor ends with whitespace.
\<close>

abbreviation trimmed :: "string \<Rightarrow> string \<Rightarrow> bool" where
  "trimmed t r \<equiv>
     (\<exists>pre post. t = pre @ r @ post
        \<and> set pre \<subseteq> whitespace_of t \<and> set post \<subseteq> whitespace_of t
        \<and> (r = [] \<or> (hd r \<notin> whitespace_of t \<and> last r \<notin> whitespace_of t)))"



text \<open>Joining pieces with a separator between neighbours, the inverse of splitting.\<close>

fun join_on :: "char \<Rightarrow> string list \<Rightarrow> string" where
  "join_on sep [] = []"
| "join_on sep [p] = p"
| "join_on sep (p # q # ps) = p @ sep # join_on sep (q # ps)"

text \<open>
  The sentence elements at an element and below it, in document order: the element
  itself when it is a sentence, then those \<open>findall\<close> gives.
\<close>

definition sents_from :: "element \<Rightarrow> element list" where
  "sents_from e = (if tag e = ''s'' then [e] else []) @ findall e ''s''"

section \<open>Properties of the string primitives\<close>

text \<open>
  Stripping gives the trimmed text, and the trimmed text is unique: \<open>strip\<close> removes
  exactly the longest runs of whitespace at the two ends.
\<close>

lemma is_space_whitespace: "is_space (is_ascii t) c = (c \<in> whitespace_of t)"
  by (auto simp: is_space_def is_ascii_def list_all_iff)

lemma strip_both_decomp:
  "\<exists>pre post. s = pre @ rev (dropWhile P (rev (dropWhile P s))) @ post
     \<and> (\<forall>c \<in> set pre. P c) \<and> (\<forall>c \<in> set post. P c)"
proof -
  let ?a = "dropWhile P s"
  let ?r = "rev (dropWhile P (rev ?a))"
  have 1: "s = takeWhile P s @ ?a" by simp
  have 2: "rev ?a = takeWhile P (rev ?a) @ dropWhile P (rev ?a)" by simp
  have 3: "?a = ?r @ rev (takeWhile P (rev ?a))"
    by (metis 2 rev_append rev_rev_ident)
  have "s = takeWhile P s @ ?r @ rev (takeWhile P (rev ?a))"
    using 1 3 by metis
  moreover have "\<forall>c \<in> set (takeWhile P s). P c"
    by (meson set_takeWhileD)
  moreover have "\<forall>c \<in> set (rev (takeWhile P (rev ?a))). P c"
    by simp (meson set_takeWhileD)
  ultimately show ?thesis by blast
qed

lemma strip_both_ends:
  assumes "rev (dropWhile P (rev (dropWhile P s))) \<noteq> []"
  shows "\<not> P (hd (rev (dropWhile P (rev (dropWhile P s)))))
       \<and> \<not> P (last (rev (dropWhile P (rev (dropWhile P s)))))"
proof -
  let ?a = "dropWhile P s"
  let ?b = "dropWhile P (rev ?a)"
  have b: "?b \<noteq> []" using assms by simp
  then have hb: "\<not> P (hd ?b)" by (rule hd_dropWhile)
  have l: "last (rev ?b) = hd ?b" using b by (simp add: last_rev)
  have a: "?a \<noteq> []" using b by (metis dropWhile.simps(1) rev.simps(1))
  then have ha: "\<not> P (hd ?a)" by (rule hd_dropWhile)
  have "rev ?a = takeWhile P (rev ?a) @ ?b" by simp
  then have "last (rev ?a) = last ?b" using b by (metis last_appendR)
  then have "hd (rev ?b) = hd ?a" using a b by (simp add: hd_rev last_rev)
  then show ?thesis using ha hb l by simp
qed

lemma strip_both_unique:
  assumes "s = pre @ r @ post" and "\<forall>c \<in> set pre. P c" and "\<forall>c \<in> set post. P c"
    and "r = [] \<or> (\<not> P (hd r) \<and> \<not> P (last r))"
  shows "rev (dropWhile P (rev (dropWhile P s))) = r"
proof (cases "r = []")
  case True
  then have "\<forall>c \<in> set s. P c" using assms by auto
  then have e: "dropWhile P s = []" by (metis dropWhile_eq_Nil_conv)
  show ?thesis unfolding e using True by simp
next
  case False
  then have h: "\<not> P (hd r)" and l: "\<not> P (last r)" using assms(4) by auto
  have "dropWhile P (r @ post) = r @ post" using False h by (cases r) auto
  then have 1: "dropWhile P s = r @ post"
    using assms(1,2) by (simp add: dropWhile_append2)
  have "rev r \<noteq> []" using False by simp
  moreover have "\<not> P (hd (rev r))" using False l by (simp add: hd_rev)
  ultimately have 2: "dropWhile P (rev r) = rev r" by (cases "rev r") auto
  have "dropWhile P (rev post @ rev r) = dropWhile P (rev r)"
    by (rule dropWhile_append2) (use assms(3) in auto)
  then have "rev (dropWhile P (rev (r @ post))) = r" unfolding rev_append 2 by simp
  then show ?thesis unfolding 1 .
qed

lemma py_strip_trimmed: "trimmed t (py_strip t)"
proof -
  let ?P = "is_space (is_ascii t)"
  obtain pre post where d: "t = pre @ py_strip t @ post"
    "\<forall>c \<in> set pre. ?P c" "\<forall>c \<in> set post. ?P c"
    using strip_both_decomp[of t ?P] unfolding py_strip_def by blast
  have e: "py_strip t = [] \<or> (\<not> ?P (hd (py_strip t)) \<and> \<not> ?P (last (py_strip t)))"
    using strip_both_ends[of ?P t] unfolding py_strip_def by blast
  have "set pre \<subseteq> whitespace_of t" "set post \<subseteq> whitespace_of t"
    using d(2,3) unfolding is_space_whitespace by blast+
  moreover have "py_strip t = [] \<or> (hd (py_strip t) \<notin> whitespace_of t \<and> last (py_strip t) \<notin> whitespace_of t)"
    using e unfolding is_space_whitespace by blast
  ultimately show ?thesis using d(1) by blast
qed

lemma trimmed_unique:
  assumes "trimmed t r"
  shows "r = py_strip t"
proof -
  let ?P = "is_space (is_ascii t)"
  from assms obtain pre post where d: "t = pre @ r @ post"
    "set pre \<subseteq> whitespace_of t" "set post \<subseteq> whitespace_of t"
    "r = [] \<or> (hd r \<notin> whitespace_of t \<and> last r \<notin> whitespace_of t)"
    by blast
  have "\<forall>c \<in> set pre. ?P c" "\<forall>c \<in> set post. ?P c"
    using d(2,3) unfolding is_space_whitespace by blast+
  moreover have "r = [] \<or> (\<not> ?P (hd r) \<and> \<not> ?P (last r))"
    using d(4) unfolding is_space_whitespace by blast
  ultimately show ?thesis
    using strip_both_unique[OF d(1), of ?P] unfolding py_strip_def by simp
qed





















text \<open>
  \<open>split\<close> gives at least one piece, one more than there are separators; no piece
  holds the separator, and joining the pieces with the separator gives the text back.
\<close>

lemma py_split_nonempty: "py_split sep s \<noteq> []"
  by (induction s) (auto split: list.splits)

lemma py_split_pieces: "p \<in> set (py_split sep s) \<Longrightarrow> sep \<notin> set p"
  by (induction s arbitrary: p) (auto split: list.splits if_splits)

lemma join_on_cons: "join_on sep ((c # w) # ws) = c # join_on sep (w # ws)"
  by (cases ws) simp_all

lemma join_on_split: "join_on sep (py_split sep s) = s"
proof (induction s)
  case Nil
  then show ?case by simp
next
  case (Cons c cs)
  obtain w ws where p: "py_split sep cs = w # ws"
    using py_split_nonempty[of sep cs] by (cases "py_split sep cs") auto
  show ?case using Cons p by (simp add: join_on_cons)
qed

lemma py_split_concat: "concat (py_split sep s) = filter (\<lambda>c. c \<noteq> sep) s"
  by (induction s) (auto split: list.splits)

lemma py_split_length: "length (py_split sep s) = Suc (length (filter (\<lambda>c. c = sep) s))"
  by (induction s) (auto split: list.splits)

section \<open>The item builder\<close>

lemmas word_eval_defs =
  SemcorCorpusReader_word_def tkn_of_def lemma_of_def elt_get_def has_key_def sense_of_def
  py_int_def py_strip_def is_space_def is_ascii_def is_digit_def digits_val_def digit_val_def
  fmt_02d_def dec.simps digit_char_def opt_str_def

lemma tkn_of_text:
  "tkn_of w strip =
     (if strip then py_strip (case elt_text w of None \<Rightarrow> [] | Some t \<Rightarrow> t)
      else (case elt_text w of None \<Rightarrow> [] | Some t \<Rightarrow> t))"
  by (simp add: tkn_of_def Let_def split: option.splits)

lemma tkn_of_trimmed:
  "if strip then trimmed (case elt_text w of None \<Rightarrow> [] | Some t \<Rightarrow> t) (tkn_of w strip)
   else tkn_of w strip = (case elt_text w of None \<Rightarrow> [] | Some t \<Rightarrow> t)"
proof (cases strip)
  case True
  then have "tkn_of w strip = py_strip (case elt_text w of None \<Rightarrow> [] | Some t \<Rightarrow> t)"
    by (simp add: tkn_of_text)
  then show ?thesis using True py_strip_trimmed[of "case elt_text w of None \<Rightarrow> [] | Some t \<Rightarrow> t"]
    by simp
next
  case False
  then show ?thesis by (simp add: tkn_of_text)
qed




text \<open>
  The entity branch when a sense number is present: the tree labelled with the sense
  key wraps an \<open>NE\<close> node, which wraps \<open>bottom\<close>.
\<close>

lemma word_entity_with_sense:
  assumes "has_key w ''rdf''" and "elt_get w ''wnsn'' = Some sn"
  shows "SemcorCorpusReader_word w UChunk pos_tag True strip
     = Inr (Tree (Str (lemma_of w (tkn_of w strip) @ ''.'' @
                    (case py_int sn of Some n \<Rightarrow> fmt_02d n | None \<Rightarrow> sn)))
             [Tree (Str ''NE'')
                (if pos_tag
                 then [Tree (opt_str (elt_get w ''pos''))
                         (map Str (py_split CHR ''_'' (tkn_of w strip)))]
                 else map Str (py_split CHR ''_'' (tkn_of w strip)))])"
  using assms
  by (simp add: SemcorCorpusReader_word_def Let_def sense_of_def split: option.splits)

text \<open>
  C4. The entity of the specification's scenario (POS \<open>NNP\<close>, lemma \<open>New_York\<close>, the
  \<open>rdf\<close> attribute set, no \<open>wnsn\<close> attribute), built at chunk granularity with both tag
  layers: the call raises \<open>UnboundLocalError\<close> and returns no tree.
\<close>

theorem entity_without_sense_number_raises:
  "SemcorCorpusReader_word
     (Element ''wf'' [(''pos'', ''NNP''), (''lemma'', ''New_York''), (''rdf'', ''location'')]
        (Some ''New_York'') [])
     UChunk True True True = Inl (UnboundLocalError ''sense'')"
  by (simp add: word_eval_defs)

text \<open>
  C10. A leaf with the \<open>rdf\<close> attribute and without the \<open>wnsn\<close> attribute, built at chunk
  granularity with semantic tags requested, yields no item: the variable \<open>sense\<close> was
  never assigned, and reading it in the entity branch raises \<open>UnboundLocalError\<close>.
\<close>

theorem unbound_sense_on_entity_without_wnsn:
  assumes "has_key w ''rdf''" and "elt_get w ''wnsn'' = None"
  shows "SemcorCorpusReader_word w UChunk pos_tag True strip = Inl (UnboundLocalError ''sense'')"
  using assms by (simp add: SemcorCorpusReader_word_def Let_def sense_of_def)

theorem unbound_sense_on_entity_without_wnsn_witness:
  "has_key (Element ''wf'' [(''rdf'', ''person'')] (Some ''Smith'') []) ''rdf''
   \<and> elt_get (Element ''wf'' [(''rdf'', ''person'')] (Some ''Smith'') []) ''wnsn'' = None
   \<and> SemcorCorpusReader_word (Element ''wf'' [(''rdf'', ''person'')] (Some ''Smith'') [])
        UChunk False True True = Inl (UnboundLocalError ''sense'')"
proof -
  have k: "has_key (Element ''wf'' [(''rdf'', ''person'')] (Some ''Smith'') []) ''rdf''"
    by (simp add: has_key_def)
  have n: "elt_get (Element ''wf'' [(''rdf'', ''person'')] (Some ''Smith'') []) ''wnsn'' = None"
    by (simp add: elt_get_def)
  show ?thesis
    using k n unbound_sense_on_entity_without_wnsn [OF k n, of False True] by simp
qed

lemma word_chunk_plain:
  "SemcorCorpusReader_word w UChunk False False strip
     = Inr (List (map Str (py_split CHR ''_'' (tkn_of w strip))))"
  by (simp add: SemcorCorpusReader_word_def Let_def)

text \<open>
  C6. At chunk granularity with neither POS nor semantic tags requested, the item is the
  bare list of the sub-words: at least one piece, none holding \<open>_\<close>, which joined with
  \<open>_\<close> give the surface text (the empty string when the text is absent, trimmed when
  \<open>strip_space\<close>); it is never a tree. The chunk \<open>New_York\<close> gives the list of \<open>New\<close>
  and \<open>York\<close>.
\<close>

theorem chunk_without_tags_is_bare_list:
  "(\<exists>r ps. SemcorCorpusReader_word w UChunk False False strip = Inr (List (map Str ps))
       \<and> ps \<noteq> [] \<and> (\<forall>p \<in> set ps. CHR ''_'' \<notin> set p) \<and> join_on CHR ''_'' ps = r
       \<and> (if strip then trimmed (case elt_text w of None \<Rightarrow> [] | Some t \<Rightarrow> t) r
          else r = (case elt_text w of None \<Rightarrow> [] | Some t \<Rightarrow> t)))
   \<and> (\<forall>l kids. SemcorCorpusReader_word w UChunk False False strip \<noteq> Inr (Tree l kids))
   \<and> SemcorCorpusReader_word (Element ''wf'' [] (Some ''New_York'') []) UChunk False False True
       = Inr (List [Str ''New'', Str ''York''])"
proof -
  let ?r = "tkn_of w strip"
  let ?ps = "py_split CHR ''_'' ?r"
  have 1: "SemcorCorpusReader_word w UChunk False False strip = Inr (List (map Str ?ps))"
    by (rule word_chunk_plain)
  have 2: "?ps \<noteq> []" by (rule py_split_nonempty)
  have 3: "\<forall>p \<in> set ?ps. CHR ''_'' \<notin> set p" using py_split_pieces by blast
  have 4: "join_on CHR ''_'' ?ps = ?r" by (rule join_on_split)
  have g: "\<exists>r ps. SemcorCorpusReader_word w UChunk False False strip = Inr (List (map Str ps))
       \<and> ps \<noteq> [] \<and> (\<forall>p \<in> set ps. CHR ''_'' \<notin> set p) \<and> join_on CHR ''_'' ps = r
       \<and> (if strip then trimmed (case elt_text w of None \<Rightarrow> [] | Some t \<Rightarrow> t) r
          else r = (case elt_text w of None \<Rightarrow> [] | Some t \<Rightarrow> t))"
    by (intro exI[of _ ?r] exI[of _ ?ps] conjI) (rule 1 2 3 4 tkn_of_trimmed)+
  have t: "\<forall>l kids. SemcorCorpusReader_word w UChunk False False strip \<noteq> Inr (Tree l kids)"
    by (simp add: word_chunk_plain)
  have e: "SemcorCorpusReader_word (Element ''wf'' [] (Some ''New_York'') []) UChunk False False True
       = Inr (List [Str ''New'', Str ''York''])"
    by (simp add: word_eval_defs)
  show ?thesis by (rule conjI[OF g conjI[OF t e]])
qed

text \<open>An instance with a leading no-break space and a trailing blank.\<close>

theorem chunk_without_tags_is_bare_list_witness:
  "(\<exists>r. join_on CHR ''_'' [''ice'', ''cream''] = r
        \<and> trimmed ([CHR 0xA0] @ ''ice_cream '') r)
   \<and> SemcorCorpusReader_word
        (Element ''wf'' [(''pos'', ''NN'')] (Some ([CHR 0xA0] @ ''ice_cream '')) [])
        UChunk False False True = Inr (List [Str ''ice'', Str ''cream''])"
proof -
  let ?w = "Element ''wf'' [(''pos'', ''NN'')] (Some ([CHR 0xA0] @ ''ice_cream '')) []"
  have e: "SemcorCorpusReader_word ?w UChunk False False True
      = Inr (List [Str ''ice'', Str ''cream''])"
    by (simp add: word_eval_defs)
  from chunk_without_tags_is_bare_list [of ?w True, THEN conjunct1]
  obtain r ps where
    1: "SemcorCorpusReader_word ?w UChunk False False True = Inr (List (map Str ps))"
    and 2: "join_on CHR ''_'' ps = r"
    and 3: "if True then trimmed (case elt_text ?w of None \<Rightarrow> [] | Some t \<Rightarrow> t) r
          else r = (case elt_text ?w of None \<Rightarrow> [] | Some t \<Rightarrow> t)"
    by (elim exE conjE) (rule that, assumption+)
  from 1 e have "map Str ps = [Str ''ice'', Str ''cream'']" by simp
  then have ps: "ps = [''ice'', ''cream'']" by (auto simp: map_eq_Cons_conv)
  from 3 have tr: "trimmed ([CHR 0xA0] @ ''ice_cream '') r"
    by (simp only: if_True element.sel option.case)
  have j: "join_on CHR ''_'' [''ice'', ''cream''] = r" using 2 by (simp only: ps)
  have g: "\<exists>r. join_on CHR ''_'' [''ice'', ''cream''] = r
        \<and> trimmed ([CHR 0xA0] @ ''ice_cream '') r"
    by (rule exI[of _ r], rule conjI[OF j tr])
  show ?thesis by (rule conjI[OF g e])
qed

text \<open>
  C7. At token granularity with neither POS nor semantic tags requested, the item is the
  surface text: the empty string when the text is absent, trimmed exactly when
  \<open>strip_space\<close> is set and unchanged otherwise; the call never fails. The trimmed
  text is the text without a leading and a trailing run of whitespace, and neither
  starts nor ends with whitespace.
\<close>

theorem token_without_tags_is_surface_text:
  "\<exists>r. SemcorCorpusReader_word w UToken False False strip = Inr (Str r)
      \<and> (if strip then trimmed (case elt_text w of None \<Rightarrow> [] | Some t \<Rightarrow> t) r
         else r = (case elt_text w of None \<Rightarrow> [] | Some t \<Rightarrow> t))"
proof -
  have 1: "SemcorCorpusReader_word w UToken False False strip = Inr (Str (tkn_of w strip))"
    by (simp add: SemcorCorpusReader_word_def Let_def)
  show ?thesis
    by (intro exI[of _ "tkn_of w strip"] conjI) (rule 1 tkn_of_trimmed)+
qed

text \<open>Instances: no-break spaces and blanks are stripped, an absent text is empty.\<close>

theorem token_without_tags_is_surface_text_witness:
  "trimmed ([CHR 0xA0] @ ''the'' @ [CHR 0xA0]) ''the''
   \<and> SemcorCorpusReader_word (Element ''wf'' [] (Some ([CHR 0xA0] @ ''the'' @ [CHR 0xA0])) [])
       UToken False False True = Inr (Str ''the'')
   \<and> SemcorCorpusReader_word (Element ''wf'' [] None []) UToken False False True = Inr (Str [])
   \<and> SemcorCorpusReader_word (Element ''wf'' [] (Some '' the '') []) UToken False False True
       = Inr (Str ''the'')
   \<and> SemcorCorpusReader_word (Element ''wf'' [] (Some '' the '') []) UToken False False False
       = Inr (Str '' the '')"
proof -
  let ?w = "Element ''wf'' [] (Some ([CHR 0xA0] @ ''the'' @ [CHR 0xA0])) []"
  have e: "SemcorCorpusReader_word ?w UToken False False True = Inr (Str ''the'')"
    by (simp add: word_eval_defs)
  from token_without_tags_is_surface_text [of ?w True]
  obtain r where
    1: "SemcorCorpusReader_word ?w UToken False False True = Inr (Str r)"
    and 3: "if True then trimmed (case elt_text ?w of None \<Rightarrow> [] | Some t \<Rightarrow> t) r
          else r = (case elt_text ?w of None \<Rightarrow> [] | Some t \<Rightarrow> t)"
    by (elim exE conjE) (rule that, assumption+)
  from 1 e have r: "r = ''the''" by simp
  from 3 have "trimmed ([CHR 0xA0] @ ''the'' @ [CHR 0xA0]) r"
    by (simp only: if_True element.sel option.case)
  then have g: "trimmed ([CHR 0xA0] @ ''the'' @ [CHR 0xA0]) ''the''" by (simp only: r)
  have n: "SemcorCorpusReader_word (Element ''wf'' [] None []) UToken False False True = Inr (Str [])"
    by (simp add: word_eval_defs)
  have s: "SemcorCorpusReader_word (Element ''wf'' [] (Some '' the '') []) UToken False False True
       = Inr (Str ''the'')"
    by (simp add: word_eval_defs)
  have u: "SemcorCorpusReader_word (Element ''wf'' [] (Some '' the '') []) UToken False False False
       = Inr (Str '' the '')"
    by (simp add: word_eval_defs)
  show ?thesis by (rule conjI[OF g conjI[OF e conjI[OF n conjI[OF s u]]]])
qed

section \<open>The leaf collector\<close>

lemma all_xmlwords_acc:
  "all_xmlwords_in e result = result @ leaf_sequence e"
  "all_xmlwords_loop cs result =
     result @ concat (map (\<lambda>c. if is_leaf c then [c] else leaf_sequence c) cs)"
proof (induction e result and cs result rule: all_xmlwords_in_all_xmlwords_loop.induct)
  case (1 t a x cs result)
  then show ?case by simp
next
  case (2 result)
  then show ?case by simp
next
  case (3 child rest result)
  then show ?case by (simp add: is_leaf_def)
qed

lemma leaf_sequence_children:
  "leaf_sequence e = concat (map (\<lambda>c. if is_leaf c then [c] else leaf_sequence c) (children e))"
  by (cases e) simp

lemma concat_singletons:
  "list_all P cs \<Longrightarrow> concat (map (\<lambda>c. if P c then [c] else f c) cs) = cs"
  by (induction cs) auto


lemma descendants_children: "descendants e = descendants_list (children e)"
  by (cases e) simp

lemma leaf_sequence_filter:
  "list_all (\<lambda>l. is_leaf l \<longrightarrow> children l = []) (descendants e) \<Longrightarrow>
   leaf_sequence e = filter is_leaf (descendants e)"
  "list_all (\<lambda>l. is_leaf l \<longrightarrow> children l = []) (descendants_list cs) \<Longrightarrow>
   concat (map (\<lambda>c. if is_leaf c then [c] else leaf_sequence c) cs)
     = filter is_leaf (descendants_list cs)"
proof (induction e and cs rule: descendants_descendants_list.induct)
  case (1 t a x cs)
  then show ?case by simp
next
  case 2
  then show ?case by simp
next
  case (3 c cs)
  show ?case
  proof (cases "is_leaf c")
    case True
    with "3.prems" have "children c = []" by simp
    then have "descendants c = []" by (simp add: descendants_children)
    with True "3.IH"(2) "3.prems" show ?thesis by simp
  next
    case False
    with "3.IH" "3.prems" show ?thesis by simp
  qed
qed

text \<open>
  C5. The leaf collector returns the specification's leaf sequence: the pre-order
  traversal that takes a leaf child as it is and descends into any other child. An
  element without children gives the empty sequence, and a sentence all of whose
  children are leaves gives its children, unchanged and in order. Where no leaf below
  the element has children of its own, the result is the leaves among all its
  descendants, in document order.
\<close>

theorem leaf_collector_is_leaf_sequence:
  "xmlwords_in elt = leaf_sequence elt
   \<and> (children elt = [] \<longrightarrow> xmlwords_in elt = [])
   \<and> (list_all is_leaf (children elt) \<longrightarrow> xmlwords_in elt = children elt)
   \<and> (list_all (\<lambda>l. is_leaf l \<longrightarrow> children l = []) (descendants elt) \<longrightarrow>
        xmlwords_in elt = filter is_leaf (descendants elt))"
  unfolding xmlwords_in_def
  by (simp add: all_xmlwords_acc(1) leaf_sequence_children[of elt] concat_singletons
        leaf_sequence_filter(1)[of elt, unfolded leaf_sequence_children[of elt]])

theorem leaf_collector_is_leaf_sequence_witness:
  "xmlwords_in (Element ''s'' [] None
      [Element ''wf'' [] (Some ''a'') [],
       Element ''chunk'' [] None
         [Element ''wf'' [] (Some ''b'') [Element ''wf'' [] (Some ''x'') []],
          Element ''g'' [] None [Element ''punc'' [] (Some '','') []]],
       Element ''wf'' [] (Some ''c'') []])
   = [Element ''wf'' [] (Some ''a'') [],
      Element ''wf'' [] (Some ''b'') [Element ''wf'' [] (Some ''x'') []],
      Element ''punc'' [] (Some '','') [],
      Element ''wf'' [] (Some ''c'') []]
   \<and> xmlwords_in (Element ''s'' [] None []) = []
   \<and> xmlwords_in (Element ''s'' [] None
        [Element ''wf'' [] (Some ''a'') [], Element ''punc'' [] (Some ''.'') []])
      = [Element ''wf'' [] (Some ''a'') [], Element ''punc'' [] (Some ''.'') []]
   \<and> list_all (\<lambda>l. is_leaf l \<longrightarrow> children l = [])
        (descendants (Element ''s'' [] None
           [Element ''wf'' [] (Some ''a'') [], Element ''punc'' [] (Some ''.'') []]))
   \<and> xmlwords_in (Element ''s'' [] None
        [Element ''wf'' [] (Some ''a'') [], Element ''punc'' [] (Some ''.'') []])
      = filter is_leaf (descendants (Element ''s'' [] None
           [Element ''wf'' [] (Some ''a'') [], Element ''punc'' [] (Some ''.'') []]))"
  using leaf_collector_is_leaf_sequence [of "Element ''s'' [] None
      [Element ''wf'' [] (Some ''a'') [],
       Element ''chunk'' [] None
         [Element ''wf'' [] (Some ''b'') [Element ''wf'' [] (Some ''x'') []],
          Element ''g'' [] None [Element ''punc'' [] (Some '','') []]],
       Element ''wf'' [] (Some ''c'') []]"]
    leaf_collector_is_leaf_sequence [of "Element ''s'' [] None []"]
    leaf_collector_is_leaf_sequence [of "Element ''s'' [] None
        [Element ''wf'' [] (Some ''a'') [], Element ''punc'' [] (Some ''.'') []]"]
  by (simp add: is_leaf_def)

section \<open>The structural stream\<close>

lemma findall_list:
  "filter (\<lambda>e. tag e = ''s'') (descendants_list cs) = concat (map sents_from cs)"
  by (induction cs) (simp_all add: sents_from_def findall_def)

lemma findall_sents_from: "findall e ''s'' = concat (map sents_from (children e))"
  by (cases e) (simp add: findall_def findall_list)




lemma tagspec_word_snoc2:
  "tagspec_word (ctx @ [t, u]) = (ctx \<noteq> [] \<and> t = ''s'' \<and> (u = ''punc'' \<or> u = ''wf''))"
proof -
  have "butlast (ctx @ [t, u]) = ctx @ [t]" by (simp add: butlast_append)
  moreover have "(3 \<le> length (ctx @ [t, u])) = (ctx \<noteq> [])" by (cases ctx) auto
  ultimately show ?thesis by (simp add: tagspec_word_def)
qed

lemma walk_leaf_children:
  "list_all (\<lambda>c. is_leaf c \<and> children c = []) cs \<Longrightarrow> ctx \<noteq> [] \<Longrightarrow>
   map snd (filter (\<lambda>pe. tagspec_word (fst pe)) (walk_list (ctx @ [''s'']) cs)) = cs"
proof (induction cs)
  case Nil
  then show ?case by simp
next
  case (Cons c cs)
  obtain t a x ks where c: "c = Element t a x ks" by (cases c)
  with Cons.prems have "ks = []" "t = ''wf'' \<or> t = ''punc''" by (auto simp: is_leaf_def)
  with Cons c show ?case by (auto simp: tagspec_word_snoc2)
qed

lemma sents_from_leaf_children:
  "list_all (\<lambda>c. is_leaf c \<and> children c = []) cs \<Longrightarrow> concat (map sents_from cs) = []"
proof (induction cs)
  case Nil
  then show ?case by simp
next
  case (Cons c cs)
  obtain t a x ks where c: "c = Element t a x ks" by (cases c)
  with Cons show ?case by (auto simp: is_leaf_def sents_from_def findall_def)
qed

lemma stream_word_walk:
  "ctx \<noteq> [] \<Longrightarrow> list_all flat_sentence (sents_from e) \<Longrightarrow>
   map snd (filter (\<lambda>pe. tagspec_word (fst pe)) (walk ctx e))
     = (if tagspec_word (ctx @ [tag e]) then [e] else []) @ concat (map children (sents_from e))"
  "ctx \<noteq> [] \<Longrightarrow> list_all flat_sentence (concat (map sents_from cs)) \<Longrightarrow>
   map snd (filter (\<lambda>pe. tagspec_word (fst pe)) (walk_list ctx cs))
     = concat (map (\<lambda>c. (if tagspec_word (ctx @ [tag c]) then [c] else [])
                          @ concat (map children (sents_from c))) cs)"
proof (induction ctx e and ctx cs rule: walk_walk_list.induct)
  case (1 ctx t a x cs)
  show ?case
  proof (cases "t = ''s''")
    case True
    with "1.prems" have fl: "list_all (\<lambda>c. is_leaf c \<and> children c = []) cs"
      by (simp add: sents_from_def flat_sentence_def)
    have "findall (Element t a x cs) ''s'' = []"
      using sents_from_leaf_children[OF fl] by (simp add: findall_sents_from)
    then show ?thesis
      using True walk_leaf_children[OF fl "1.prems"(1)]
      by (simp add: sents_from_def)
  next
    case False
    have fl: "list_all flat_sentence (concat (map sents_from cs))"
      using "1.prems" False by (simp add: sents_from_def findall_sents_from)
    have ne: "ctx @ [t] \<noteq> []" by simp
    have "map snd (filter (\<lambda>pe. tagspec_word (fst pe)) (walk_list (ctx @ [t]) cs))
        = concat (map (\<lambda>c. concat (map children (sents_from c))) cs)"
      using "1.IH"[OF ne fl] False by (simp add: tagspec_word_snoc2)
    also have "\<dots> = concat (map children (concat (map sents_from cs)))"
      by (induction cs) simp_all
    finally show ?thesis using False
      by (simp add: sents_from_def findall_sents_from)
  qed
next
  case (2 ctx)
  then show ?case by simp
next
  case (3 ctx c cs)
  then show ?case by simp
qed

lemma stream_word:
  assumes "flat_doc d"
  shows "XMLCorpusView_elts d tagspec_word = concat (map children (findall d ''s''))"
proof -
  obtain t a x cs where d: "d = Element t a x cs" by (cases d)
  have fl: "list_all flat_sentence (concat (map sents_from cs))"
    using assms d by (simp add: flat_doc_def findall_sents_from)
  have t1: "\<not> tagspec_word [t]" by (simp add: tagspec_word_def)
  have t2: "\<And>u. \<not> tagspec_word ([t] @ [u])" by (simp add: tagspec_word_def)
  have "map snd (filter (\<lambda>pe. tagspec_word (fst pe)) (walk_list [t] cs))
        = concat (map (\<lambda>c. concat (map children (sents_from c))) cs)"
    using stream_word_walk(2)[of "[t]" cs, OF _ fl] t2 by simp
  also have "\<dots> = concat (map children (concat (map sents_from cs)))"
    by (induction cs) simp_all
  finally show ?thesis using d t1
    by (simp add: XMLCorpusView_elts_def findall_sents_from)
qed

section \<open>The loops in closed form\<close>

lemma word_UWord:
  "SemcorCorpusReader_word w UWord pos_tag sem_tag strip
     = Inr (List (map Str (py_split CHR ''_'' (tkn_of w strip))))"
  by (simp add: SemcorCorpusReader_word_def Let_def)

lemma word_not_None: "SemcorCorpusReader_word w unit pos_tag sem_tag strip \<noteq> Inr NoneV"
  by (auto simp: SemcorCorpusReader_word_def Let_def split: option.splits if_splits)

lemma word_fails_iff:
  "(\<exists>err. SemcorCorpusReader_word w unit pos_tag sem_tag strip = Inl err)
     = (unit = UChunk \<and> sem_tag \<and> has_key w ''rdf'' \<and> elt_get w ''wnsn'' = None)"
  by (cases unit)
    (auto simp: SemcorCorpusReader_word_def Let_def sense_of_def split: option.splits if_splits)

lemma pull_all_append:
  "pull_all h (xs @ ys) =
     (case pull_all h xs of
        Inl err \<Rightarrow> Inl err
      | Inr a \<Rightarrow> (case pull_all h ys of Inl err \<Rightarrow> Inl err | Inr b \<Rightarrow> Inr (a @ b)))"
  by (induction xs) (auto split: sum.splits)

lemma pull_all_not_None:
  "pull_all h es = Inr vs \<Longrightarrow> (\<And>e. h e \<noteq> Inr NoneV) \<Longrightarrow> NoneV \<notin> set vs"
proof (induction es arbitrary: vs)
  case Nil
  then show ?case by simp
next
  case (Cons e es)
  then show ?case by (auto split: sum.splits)
qed

lemma pull_all_length: "pull_all h es = Inr vs \<Longrightarrow> list_all2 (\<lambda>e v. h e = Inr v) es vs"
proof (induction es arbitrary: vs)
  case Nil
  then show ?case by simp
next
  case (Cons e es)
  then show ?case by (auto split: sum.splits)
qed

lemma words_sent_loop_items:
  "unit \<noteq> UWord \<Longrightarrow>
   words_sent_loop unit p s st ws sent =
     (case pull_all (\<lambda>w. SemcorCorpusReader_word w unit p s st) ws of
        Inl err \<Rightarrow> Inl err
      | Inr items \<Rightarrow> Inr (sent @ items))"
  by (induction ws arbitrary: sent) (auto split: sum.splits)

lemma words_sent_loop_words:
  "words_sent_loop UWord p s st ws sent =
     Inr (sent @ concat (map (\<lambda>w. map Str (py_split CHR ''_'' (tkn_of w st))) ws))"
  by (induction ws arbitrary: sent) (auto simp: word_UWord)





lemma words_doc_loop_words:
  "words_doc_loop UWord False p s st sents result =
     Inr (result @ concat (map (\<lambda>w. map Str (py_split CHR ''_'' (tkn_of w st)))
                            (concat (map xmlwords_in sents))))"
  by (induction sents arbitrary: result) (auto simp: words_sent_loop_words)

lemma pull_all_words:
  "pull_all (\<lambda>w. SemcorCorpusReader_word w UWord p s st) ws =
     Inr (map (\<lambda>w. List (map Str (py_split CHR ''_'' (tkn_of w st)))) ws)"
  by (induction ws) (auto simp: word_UWord)

lemma flatten_loop_lists: "flatten_loop (map (\<lambda>w. List (f w)) ws) = Inr (concat (map f ws))"
  by (induction ws) auto



lemma Str_not_None: "NoneV \<notin> set (concat (map (\<lambda>w. map Str (f w)) ws))"
  by auto


lemmas view_eval_defs =
  words_def SemcorCorpusReader_items_def producer_def SemcorCorpusReader_words_def
  findall_def xmlwords_in_def LazyConcatenation_def view_items_def SemcorWordView_def
  XMLCorpusView_elts_def tagspec_sent_def tagspec_word_def handle_elt_def handle_word_def
  handle_sent_def


section \<open>Eager materializer and lazy view\<close>





section \<open>The view selector\<close>

text \<open>
  The operation \<open>words\<close> on one document, in general: an eager reader gives the
  characters of the sub-words, a lazy reader on a flat document the sub-words.
\<close>

lemma flatten_loop_strs:
  "flatten_loop (map Str ps) = Inr (concat (map (\<lambda>p. map (\<lambda>c. Str [c]) p) ps))"
  by (induction ps) auto

lemma concat_docs_single: "concat_docs [r] = r"
  by (cases r) auto

lemma words_eager_gives_characters:
  "words False [d] st =
     Inr (concat (map (\<lambda>p. map (\<lambda>c. Str [c]) p)
            (concat (map (\<lambda>w. py_split CHR ''_'' (tkn_of w st))
               (concat (map xmlwords_in (findall d ''s'')))))))"
proof -
  let ?ws = "concat (map xmlwords_in (findall d ''s''))"
  have m: "concat (map (\<lambda>w. map Str (py_split CHR ''_'' (tkn_of w st))) ?ws)
      = map Str (concat (map (\<lambda>w. py_split CHR ''_'' (tkn_of w st)) ?ws))"
    by (simp add: map_concat comp_def)
  have "SemcorCorpusReader_words d UWord False False False st
      = Inr (map Str (concat (map (\<lambda>w. py_split CHR ''_'' (tkn_of w st)) ?ws)))"
    unfolding m[symmetric]
    by (simp add: SemcorCorpusReader_words_def words_doc_loop_words Str_not_None del: set_concat)
  then show ?thesis
    by (simp add: words_def SemcorCorpusReader_items_def producer_def LazyConcatenation_def
          flatten_loop_strs concat_docs_single del: concat_docs.simps)
qed

lemma words_lazy_gives_words:
  assumes "flat_doc d"
  shows "words True [d] st =
     Inr (map Str (concat (map (\<lambda>w. py_split CHR ''_'' (tkn_of w st))
               (concat (map children (findall d ''s''))))))"
proof -
  let ?ws = "concat (map children (findall d ''s''))"
  have v: "view_items (SemcorWordView d UWord False False False st)
        = Inr (map (\<lambda>w. List (map Str (py_split CHR ''_'' (tkn_of w st)))) ?ws)"
    by (simp add: view_items_def SemcorWordView_def stream_word[OF assms] handle_elt_def[abs_def]
          handle_word_def[abs_def] pull_all_words)
  have m: "concat (map (\<lambda>w. map Str (py_split CHR ''_'' (tkn_of w st))) ?ws)
      = map Str (concat (map (\<lambda>w. py_split CHR ''_'' (tkn_of w st)) ?ws))"
    by (simp add: map_concat comp_def)
  have "LazyConcatenation (view_items (SemcorWordView d UWord False False False st))
      = Inr (map Str (concat (map (\<lambda>w. py_split CHR ''_'' (tkn_of w st)) ?ws)))"
    unfolding m[symmetric] by (simp add: LazyConcatenation_def v flatten_loop_lists)
  then show ?thesis
    by (simp add: words_def SemcorCorpusReader_items_def producer_def concat_docs_single
          del: concat_docs.simps)
qed

text \<open>
  C2. The operation \<open>words\<close> on a document whose only sentence has the only leaf
  \<open>New_York\<close>: with an eager reader the flattening adapter is applied to the already
  flat word list and the result is the sequence of the seven characters; with a lazy
  reader it is the two words.
\<close>

theorem eager_words_are_characters:
  "words False
     [Element ''context'' [] None
        [Element ''s'' [(''snum'', ''1'')] None [Element ''wf'' [] (Some ''New_York'') []]]]
     True
   = Inr [Str ''N'', Str ''e'', Str ''w'', Str ''Y'', Str ''o'', Str ''r'', Str ''k'']
   \<and> words True
     [Element ''context'' [] None
        [Element ''s'' [(''snum'', ''1'')] None [Element ''wf'' [] (Some ''New_York'') []]]]
     True
   = Inr [Str ''New'', Str ''York'']"
  by (simp add: view_eval_defs word_eval_defs)


section \<open>Sentence building in the lazy view\<close>

lemma handle_sent_loop_ValueError:
  "handle_sent_loop self cs sent = Inl (ValueError m) \<Longrightarrow> \<exists>c \<in> set cs. \<not> is_leaf c"
proof (induction cs arbitrary: sent)
  case Nil
  then show ?case by simp
next
  case (Cons c cs)
  show ?case
  proof (cases "is_leaf c")
    case False
    then show ?thesis by simp
  next
    case True
    then have t: "tag c \<in> set [''wf'', ''punc'']" by (auto simp: is_leaf_def)
    have w: "handle_word self c \<noteq> Inl (ValueError m)"
      by (auto simp: handle_word_def SemcorCorpusReader_word_def Let_def split: option.splits)
    have "\<exists>sent'. handle_sent_loop self cs sent' = Inl (ValueError m)"
      using Cons.prems t w
      by (auto simp: handle_word_def word_UWord split: sum.splits if_splits)
    then show ?thesis using Cons.IH by auto
  qed
qed

lemma handle_sent_loop_nonleaf:
  "\<exists>c \<in> set cs. \<not> is_leaf c \<Longrightarrow> \<exists>err. handle_sent_loop self cs sent = Inl err"
proof (induction cs arbitrary: sent)
  case Nil
  then show ?case by simp
next
  case (Cons c cs)
  show ?case
  proof (cases "is_leaf c")
    case False
    then show ?thesis by (simp add: is_leaf_def)
  next
    case True
    then have "\<exists>c \<in> set cs. \<not> is_leaf c" using Cons.prems by auto
    then have "\<And>sent'. \<exists>err. handle_sent_loop self cs sent' = Inl err" using Cons.IH by blast
    then show ?thesis using True
      by (auto simp: is_leaf_def split: sum.splits)
  qed
qed

lemma handle_sent_loop_structural:
  "\<exists>c \<in> set cs. \<not> is_leaf c \<Longrightarrow> v_unit self \<noteq> UChunk \<or> \<not> v_sem_tag self \<Longrightarrow>
   \<exists>m. handle_sent_loop self cs sent = Inl (ValueError m)"
proof (induction cs arbitrary: sent)
  case Nil
  then show ?case by simp
next
  case (Cons c cs)
  show ?case
  proof (cases "is_leaf c")
    case False
    then show ?thesis by (simp add: is_leaf_def)
  next
    case True
    then have "\<exists>c \<in> set cs. \<not> is_leaf c" using Cons.prems by auto
    then have ih: "\<And>sent'. \<exists>m. handle_sent_loop self cs sent' = Inl (ValueError m)"
      using Cons.IH Cons.prems(2) by blast
    have "\<not> (\<exists>err. handle_word self c = Inl err)"
      unfolding handle_word_def word_fails_iff using Cons.prems(2) by blast
    then obtain v where v: "handle_word self c = Inr v" by (cases "handle_word self c") auto
    have "v_unit self = UWord \<Longrightarrow> \<exists>xs. py_iter v = Inr xs"
      using v by (auto simp: handle_word_def word_UWord)
    then show ?thesis using True v ih
      by (auto simp: is_leaf_def)
  qed
qed

lemma handle_sent_ValueError_iff:
  assumes "v_unit self \<noteq> UChunk \<or> \<not> v_sem_tag self"
  shows "(\<exists>m. handle_sent self e = Inl (ValueError m)) = (\<exists>c \<in> set (children e). \<not> is_leaf c)"
proof
  assume "\<exists>m. handle_sent self e = Inl (ValueError m)"
  then obtain m where "handle_sent_loop self (children e) [] = Inl (ValueError m)"
    by (auto simp: handle_sent_def split: sum.splits option.splits)
  then show "\<exists>c \<in> set (children e). \<not> is_leaf c" by (rule handle_sent_loop_ValueError)
next
  assume "\<exists>c \<in> set (children e). \<not> is_leaf c"
  then obtain m where "handle_sent_loop self (children e) [] = Inl (ValueError m)"
    using handle_sent_loop_structural assms by blast
  then show "\<exists>m. handle_sent self e = Inl (ValueError m)" by (simp add: handle_sent_def)
qed

lemma handle_sent_nonleaf_no_sentence:
  "\<exists>c \<in> set (children e). \<not> is_leaf c \<Longrightarrow> \<exists>err. handle_sent self e = Inl err"
  using handle_sent_loop_nonleaf[of "children e" self "[]"]
  by (auto simp: handle_sent_def)


text \<open>
  C8. A sentence whose first child is a leaf with \<open>rdf\<close> and without \<open>wnsn\<close> and whose
  second child is a nested chunk element, built in the bracketed lazy mode at chunk
  granularity with semantic tags: the item builder raises \<open>UnboundLocalError\<close> on the
  first child, before the loop reaches the child with the unexpected tag, so the
  exception is not the structural \<open>ValueError\<close>.
\<close>

theorem structural_error_preempted_by_unbound_sense:
  "handle_sent (SemcorWordView d UChunk True False True True)
     (Element ''s'' [(''snum'', ''1'')] None
        [Element ''wf'' [(''rdf'', ''person'')] (Some ''Smith'') [],
         Element ''chunk'' [] None [Element ''wf'' [] (Some ''ran'') []]])
   = Inl (UnboundLocalError ''sense'')"
  by (simp add: view_eval_defs word_eval_defs)


section \<open>The items of the eager materializer\<close>

lemma words_doc_loop_items_gen:
  "unit \<noteq> UWord \<Longrightarrow>
   words_doc_loop unit False p s st sents result =
     (case pull_all (\<lambda>w. SemcorCorpusReader_word w unit p s st) (concat (map xmlwords_in sents)) of
        Inl err \<Rightarrow> Inl err
      | Inr vs \<Rightarrow> Inr (result @ vs))"
proof (induction sents arbitrary: result)
  case Nil
  then show ?case by simp
next
  case (Cons e sents)
  then show ?case
    by (auto simp: words_sent_loop_items pull_all_append split: sum.splits)
qed

lemma words_doc_loop_bracketed_gen:
  "words_doc_loop unit True p s st sents result = Inr out \<Longrightarrow>
   \<exists>vs. out = result @ vs \<and>
     list_all2 (\<lambda>e v. \<exists>num sent. v = SemcorSentence num sent
                  \<and> map_of (attrib e) ''snum'' = Some num
                  \<and> words_sent_loop unit p s st (xmlwords_in e) [] = Inr sent) sents vs"
proof (induction sents arbitrary: result)
  case Nil
  then show ?case by simp
next
  case (Cons e sents)
  from Cons.prems obtain sent num where
    s: "words_sent_loop unit p s st (xmlwords_in e) [] = Inr sent"
    and n: "map_of (attrib e) ''snum'' = Some num"
    and r: "words_doc_loop unit True p s st sents (result @ [SemcorSentence num sent]) = Inr out"
    by (auto split: sum.splits option.splits)
  from Cons.IH[OF r] obtain vs where
    "out = (result @ [SemcorSentence num sent]) @ vs"
    "list_all2 (\<lambda>e v. \<exists>num sent. v = SemcorSentence num sent
                  \<and> map_of (attrib e) ''snum'' = Some num
                  \<and> words_sent_loop unit p s st (xmlwords_in e) [] = Inr sent) sents vs"
    by blast
  then show ?case using s n
    by (intro exI[of _ "SemcorSentence num sent # vs"]) simp
qed

lemma eager_result_invariant:
  assumes "SemcorCorpusReader_words d unit b p s st = Inr result"
  shows "NoneV \<notin> set result"
    and "\<not> b \<Longrightarrow> unit \<noteq> UWord \<Longrightarrow>
         list_all2 (\<lambda>w v. SemcorCorpusReader_word w unit p s st = Inr v)
           (concat (map xmlwords_in (findall d ''s''))) result"
    and "\<not> b \<Longrightarrow> unit = UWord \<Longrightarrow>
         result = concat (map (\<lambda>w. map Str (py_split CHR ''_'' (tkn_of w st)))
                            (concat (map xmlwords_in (findall d ''s''))))"
    and "b \<Longrightarrow>
         list_all2 (\<lambda>e v. \<exists>num sent. v = SemcorSentence num sent
                  \<and> map_of (attrib e) ''snum'' = Some num
                  \<and> words_sent_loop unit p s st (xmlwords_in e) [] = Inr sent)
           (findall d ''s'') result"
proof -
  from assms obtain out where
    o: "words_doc_loop unit b p s st (findall d ''s'') [] = Inr out"
    and r: "result = out" and n: "NoneV \<notin> set out"
    by (auto simp: SemcorCorpusReader_words_def split: sum.splits if_splits)
  show "NoneV \<notin> set result" using r n by simp
  show "list_all2 (\<lambda>w v. SemcorCorpusReader_word w unit p s st = Inr v)
           (concat (map xmlwords_in (findall d ''s''))) result" if "\<not> b" "unit \<noteq> UWord"
    using o r that pull_all_length[of "\<lambda>w. SemcorCorpusReader_word w unit p s st"]
    by (auto simp: words_doc_loop_items_gen split: sum.splits)
  show "result = concat (map (\<lambda>w. map Str (py_split CHR ''_'' (tkn_of w st)))
                            (concat (map xmlwords_in (findall d ''s''))))" if "\<not> b" "unit = UWord"
    using o r that by (simp add: words_doc_loop_words)
  show "list_all2 (\<lambda>e v. \<exists>num sent. v = SemcorSentence num sent
                  \<and> map_of (attrib e) ''snum'' = Some num
                  \<and> words_sent_loop unit p s st (xmlwords_in e) [] = Inr sent)
           (findall d ''s'') result" if "b"
    using o r that words_doc_loop_bracketed_gen[of unit p s st "findall d ''s''" "[]" out]
    by auto
qed

lemma pull_all_total:
  "(\<And>e. \<exists>v. h e = Inr v) \<Longrightarrow> \<exists>vs. pull_all h es = Inr vs"
proof (induction es)
  case Nil
  then show ?case by simp
next
  case (Cons e es)
  then obtain v vs where "h e = Inr v" "pull_all h es = Inr vs" by metis
  then show ?case by simp
qed

lemma eager_returns_without_sense_tags:
  assumes "unit \<noteq> UChunk \<or> \<not> s"
  shows "\<exists>result. SemcorCorpusReader_words d unit False p s st = Inr result"
proof (cases "unit = UWord")
  case True
  then show ?thesis
    by (simp add: SemcorCorpusReader_words_def words_doc_loop_words Str_not_None del: set_concat)
next
  case False
  let ?h = "\<lambda>w. SemcorCorpusReader_word w unit p s st"
  have "\<And>w. \<exists>v. ?h w = Inr v"
  proof -
    fix w
    have "\<not> (\<exists>err. ?h w = Inl err)" unfolding word_fails_iff using assms by blast
    then show "\<exists>v. ?h w = Inr v" by (cases "?h w") auto
  qed
  then obtain vs where vs: "pull_all ?h (concat (map xmlwords_in (findall d ''s''))) = Inr vs"
    using pull_all_total[of ?h] by blast
  then have "NoneV \<notin> set vs" using pull_all_not_None[of ?h] word_not_None by blast
  then show ?thesis using vs False
    by (cases unit) (simp_all add: SemcorCorpusReader_words_def words_doc_loop_items_gen)
qed


text \<open>
  C9. A document whose sentence holds a leaf with \<open>rdf\<close> and without \<open>wnsn\<close>, read
  eagerly at chunk granularity with semantic tags: the materializer raises
  \<open>UnboundLocalError\<close>, so no leaf of the document yields an item.
\<close>

theorem leaf_without_item_in_eager_mode:
  "SemcorCorpusReader_words
     (Element ''context'' [] None
        [Element ''s'' [(''snum'', ''1'')] None
           [Element ''wf'' [(''rdf'', ''person''), (''pos'', ''NNP'')] (Some ''Smith'') [],
            Element ''wf'' [(''pos'', ''VB''), (''lemma'', ''run''), (''wnsn'', ''1'')]
              (Some ''ran'') []]])
     UChunk False False True True = Inl (UnboundLocalError ''sense'')"
  by (simp add: view_eval_defs word_eval_defs)

end
